theory Spec2Isabelle
  imports Main
begin

section \<open>Text: Python strings as sequences of code points\<close>

text \<open>
  A Python \<^verbatim>\<open>str\<close> is a sequence of Unicode code points, so a string is a list of
  naturals here. The deadline labels mix Japanese glyphs with ASCII, which a byte string
  would count differently. \<open>ascii\<close> embeds an ASCII literal.
\<close>

type_synonym ustr = "nat list"

definition ascii :: "string \<Rightarrow> ustr" where
  "ascii s = map of_char s"

text \<open>
  The character classes of Python's \<^verbatim>\<open>re\<close> on \<^verbatim>\<open>str\<close> patterns (Unicode 14, as shipped with
  CPython 3.11). \<^verbatim>\<open>\d\<close> is the general category Nd: 66 runs of ten consecutive code points,
  each run starting at the digit of value zero. \<^verbatim>\<open>\s\<close> is \<^verbatim>\<open>str.isspace\<close>.
\<close>

definition decimal_zeros :: "nat list" where
  "decimal_zeros =
    [48, 1632, 1776, 1984, 2406, 2534, 2662, 2790, 2918, 3046, 3174, 3302, 3430, 3558,
     3664, 3792, 3872, 4160, 4240, 6112, 6160, 6470, 6608, 6784, 6800, 6992, 7088, 7232,
     7248, 42528, 43216, 43264, 43472, 43504, 43600, 44016, 65296, 66720, 68912, 69734,
     69872, 69942, 70096, 70384, 70736, 70864, 71248, 71360, 71472, 71904, 72016, 72784,
     73040, 73120, 92768, 92864, 93008, 120782, 120792, 120802, 120812, 120822, 123200,
     123632, 125264, 130032]"

definition digit_value :: "nat \<Rightarrow> nat option" where
  "digit_value c =
     (case filter (\<lambda>z. z \<le> c \<and> c < z + 10) decimal_zeros of
        [] \<Rightarrow> None
      | z # _ \<Rightarrow> Some (c - z))"

definition is_digit :: "nat \<Rightarrow> bool" where
  "is_digit c = (digit_value c \<noteq> None)"

definition whitespace :: "nat list" where
  "whitespace =
    [9, 10, 11, 12, 13, 28, 29, 30, 31, 32, 133, 160, 5760, 8192, 8193, 8194, 8195, 8196,
     8197, 8198, 8199, 8200, 8201, 8202, 8232, 8233, 8239, 8287, 12288]"

definition is_space :: "nat \<Rightarrow> bool" where
  "is_space c = (c \<in> set whitespace)"

text \<open>
  \<^verbatim>\<open>int(s)\<close> on a group matched by \<^verbatim>\<open>\d{..}\<close>: the group is a non-empty run of decimal
  digits, on which \<^verbatim>\<open>int\<close> cannot raise and reads every Nd digit by its value.
\<close>

definition py_int :: "ustr \<Rightarrow> nat" where
  "py_int s = foldl (\<lambda>a c. 10 * a + (case digit_value c of Some v \<Rightarrow> v | None \<Rightarrow> 0)) 0 s"

text \<open>
  \<^verbatim>\<open>str.lower\<close> restricted to what reaches it in \<open>parse_due_date\<close>: text matched
  case-insensitively by ASCII letters, which is ASCII letters and the long s (U+017F),
  itself lower case.
\<close>

definition lower_chr :: "nat \<Rightarrow> nat" where
  "lower_chr c = (if 65 \<le> c \<and> c \<le> 90 then c + 32 else c)"

definition lower :: "ustr \<Rightarrow> ustr" where
  "lower s = map lower_chr s"

text \<open>
  \<^verbatim>\<open>re.I\<close>: the code points a literal pattern character matches. For an ASCII letter these
  are its two cases and, for i, s and k, the code points that fold onto them (dotted
  capital I and dotless i, long s, the Kelvin sign).
\<close>

definition ci_match :: "nat \<Rightarrow> nat \<Rightarrow> bool" where
  "ci_match p c =
     (let l = lower_chr p in
      if 97 \<le> l \<and> l \<le> 122 then
        c = l \<or> c + 32 = l
        \<or> (l = 105 \<and> (c = 304 \<or> c = 305))
        \<or> (l = 115 \<and> c = 383)
        \<or> (l = 107 \<and> c = 8490)
      else c = p)"

section \<open>A backtracking matcher for the two patterns\<close>

text \<open>
  Each piece of a pattern takes the continuation for the rest of the pattern and the
  remaining input, and returns the results of all ways to match, in the order in which
  Python's backtracking engine tries them. \<^verbatim>\<open>re.search\<close> takes the first result at the
  leftmost start position that has one.
\<close>

type_synonym 'a rx = "ustr \<Rightarrow> 'a list"

definition rx_chr :: "(nat \<Rightarrow> bool) \<Rightarrow> 'a rx \<Rightarrow> 'a rx" where
  "rx_chr p k s = (case s of [] \<Rightarrow> [] | c # r \<Rightarrow> if p c then k r else [])"

text \<open>\<^verbatim>\<open>(\d{n})\<close>: exactly \<open>n\<close> digits, captured.\<close>

definition rx_digits :: "nat \<Rightarrow> (ustr \<Rightarrow> 'a rx) \<Rightarrow> 'a rx" where
  "rx_digits n k s =
     (if n \<le> length s \<and> list_all is_digit (take n s) then k (take n s) (drop n s) else [])"

text \<open>\<^verbatim>\<open>(\d{1,2})\<close>: greedy, two digits are tried before one.\<close>

definition rx_digits12 :: "(ustr \<Rightarrow> 'a rx) \<Rightarrow> 'a rx" where
  "rx_digits12 k s = rx_digits 2 k s @ rx_digits 1 k s"

text \<open>\<^verbatim>\<open>\s*\<close>: greedy, the longest run first, then one character less at a time.\<close>

fun rx_spaces :: "'a rx \<Rightarrow> 'a rx" where
  "rx_spaces k [] = k []"
| "rx_spaces k (c # r) = (if is_space c then rx_spaces k r else []) @ k (c # r)"

text \<open>\<^verbatim>\<open>\s+\<close>\<close>

definition rx_spaces1 :: "'a rx \<Rightarrow> 'a rx" where
  "rx_spaces1 k = rx_chr is_space (rx_spaces k)"

text \<open>\<^verbatim>\<open>.*?\<close>: lazy, the shortest run first; the dot does not match a line feed.\<close>

fun rx_lazy_any :: "'a rx \<Rightarrow> 'a rx" where
  "rx_lazy_any k [] = k []"
| "rx_lazy_any k (c # r) = k (c # r) @ (if c \<noteq> 10 then rx_lazy_any k r else [])"

text \<open>A literal word under \<^verbatim>\<open>re.I\<close>, captured, and an alternation of such words.\<close>

definition rx_word_ci :: "ustr \<Rightarrow> (ustr \<Rightarrow> 'a rx) \<Rightarrow> 'a rx" where
  "rx_word_ci w k s =
     (if length w \<le> length s \<and> list_all2 ci_match w (take (length w) s)
      then k (take (length w) s) (drop (length w) s) else [])"

definition rx_alt_ci :: "ustr list \<Rightarrow> (ustr \<Rightarrow> 'a rx) \<Rightarrow> 'a rx" where
  "rx_alt_ci ws k s = concat (map (\<lambda>w. rx_word_ci w k s) ws)"

fun rx_search :: "'a rx \<Rightarrow> ustr \<Rightarrow> 'a option" where
  "rx_search m [] = (case m [] of [] \<Rightarrow> None | x # _ \<Rightarrow> Some x)"
| "rx_search m (c # r) = (case m (c # r) of [] \<Rightarrow> rx_search m r | x # _ \<Rightarrow> Some x)"

text \<open>
  The localized pattern
  \<^verbatim>\<open>(\d{4})<nen>(\d{1,2})<gatsu>(\d{1,2})<nichi>\s*(\d{1,2}):(\d{2})\<close>,
  where the three glyphs are U+5E74, U+6708 and U+65E5.
\<close>

definition NEN :: nat where "NEN = 24180"
definition GATSU :: nat where "GATSU = 26376"
definition NICHI :: nat where "NICHI = 26085"
definition COLON :: nat where "COLON = 58"

definition jp_rx :: "(ustr \<times> ustr \<times> ustr \<times> ustr \<times> ustr) rx" where
  "jp_rx =
     rx_digits 4 (\<lambda>y. rx_chr (\<lambda>c. c = NEN)
    (rx_digits12 (\<lambda>m. rx_chr (\<lambda>c. c = GATSU)
    (rx_digits12 (\<lambda>d. rx_chr (\<lambda>c. c = NICHI)
    (rx_spaces
    (rx_digits12 (\<lambda>hh. rx_chr (\<lambda>c. c = COLON)
    (rx_digits 2 (\<lambda>mm rest. [(y, m, d, hh, mm)]))))))))))"

text \<open>
  The English pattern, under \<^verbatim>\<open>re.I\<close>:
  \<^verbatim>\<open>(\d{1,2})\s+(January|...|December)\s+(\d{4}).*?(\d{1,2}):(\d{2})\s*(AM|PM)\<close>.
\<close>

definition month_names :: "ustr list" where
  "month_names = map ascii
     [''January'', ''February'', ''March'', ''April'', ''May'', ''June'', ''July'',
      ''August'', ''September'', ''October'', ''November'', ''December'']"

definition en_rx :: "(ustr \<times> ustr \<times> ustr \<times> ustr \<times> ustr \<times> ustr) rx" where
  "en_rx =
     rx_digits12 (\<lambda>d. rx_spaces1
    (rx_alt_ci month_names (\<lambda>mon. rx_spaces1
    (rx_digits 4 (\<lambda>y. rx_lazy_any
    (rx_digits12 (\<lambda>hh. rx_chr (\<lambda>c. c = COLON)
    (rx_digits 2 (\<lambda>mm. rx_spaces
    (rx_alt_ci [ascii ''AM'', ascii ''PM''] (\<lambda>ampm rest. [(d, mon, y, hh, mm, ampm)])))))))))))"

section \<open>Exceptions and timestamps\<close>

text \<open>
  An exception is a value. \<open>RuntimeError\<close> carries its message, the only thing that
  tells the two \<^verbatim>\<open>raise RuntimeError(...)\<close> of \<open>login\<close> apart; \<open>class_of\<close> is the Python
  class of an exception, what an \<^verbatim>\<open>except\<close> clause can select on.
\<close>

datatype exc_class =
  RuntimeErrorC | ValueErrorC | OverflowErrorC | TypeErrorC | BrowserErrorC | TransportErrorC

datatype exc =
    RuntimeError ustr
  | ValueError
  | OverflowError
  | TypeError
  | BrowserError ustr
  | TransportError ustr

fun class_of :: "exc \<Rightarrow> exc_class" where
  "class_of (RuntimeError _) = RuntimeErrorC"
| "class_of ValueError = ValueErrorC"
| "class_of OverflowError = OverflowErrorC"
| "class_of TypeError = TypeErrorC"
| "class_of (BrowserError _) = BrowserErrorC"
| "class_of (TransportError _) = TransportErrorC"

text \<open>
  A \<^verbatim>\<open>datetime\<close> whose \<^verbatim>\<open>tzinfo\<close> is the module constant \<^verbatim>\<open>JST\<close>: every timestamp of the
  program carries that same zone object, so only the wall-clock fields are kept.
\<close>

record datetime =
  year :: nat
  month :: nat
  day :: nat
  hour :: nat
  minute :: nat
  second :: nat
  microsecond :: nat

definition is_leap :: "nat \<Rightarrow> bool" where
  "is_leap y = (y mod 4 = 0 \<and> (y mod 100 \<noteq> 0 \<or> y mod 400 = 0))"

definition days_in_month :: "nat \<Rightarrow> nat \<Rightarrow> nat" where
  "days_in_month y m =
     (if m = 2 then (if is_leap y then 29 else 28)
      else if m = 4 \<or> m = 6 \<or> m = 9 \<or> m = 11 then 30 else 31)"

text \<open>
  The constructor \<^verbatim>\<open>dt.datetime(y, m, d, hh, mm, tzinfo=JST)\<close> with its range checks, each
  a \<^verbatim>\<open>ValueError\<close>.
\<close>

definition mk_datetime :: "nat \<Rightarrow> nat \<Rightarrow> nat \<Rightarrow> nat \<Rightarrow> nat \<Rightarrow> exc + datetime" where
  "mk_datetime y m d hh mm =
     (if \<not> (1 \<le> y \<and> y \<le> 9999) then Inl ValueError
      else if \<not> (1 \<le> m \<and> m \<le> 12) then Inl ValueError
      else if \<not> (1 \<le> d \<and> d \<le> days_in_month y m) then Inl ValueError
      else if \<not> hh \<le> 23 then Inl ValueError
      else if \<not> mm \<le> 59 then Inl ValueError
      else Inr \<lparr>year = y, month = m, day = d, hour = hh, minute = mm,
                second = 0, microsecond = 0\<rparr>)"

text \<open>
  \<^verbatim>\<open>dt.datetime.strptime(s, "%b").month\<close> in the C locale: the text is lowered and looked
  up among the twelve abbreviations; anything else is a \<^verbatim>\<open>ValueError\<close>.
\<close>

definition month_abbrs :: "ustr list" where
  "month_abbrs = map ascii
     [''jan'', ''feb'', ''mar'', ''apr'', ''may'', ''jun'', ''jul'', ''aug'', ''sep'',
      ''oct'', ''nov'', ''dec'']"

fun index_of :: "'a \<Rightarrow> 'a list \<Rightarrow> nat option" where
  "index_of x [] = None"
| "index_of x (y # ys) = (if x = y then Some 0 else map_option Suc (index_of x ys))"

definition strptime_b :: "ustr \<Rightarrow> exc + nat" where
  "strptime_b s =
     (case index_of (lower s) month_abbrs of None \<Rightarrow> Inl ValueError | Some i \<Rightarrow> Inr (i + 1))"

section \<open>parse_due_date\<close>

definition parse_due_date :: "ustr \<Rightarrow> exc + datetime option" where
  "parse_due_date text =
     (case rx_search jp_rx text of
        Some (y, m, d, hh, mm) \<Rightarrow>
          map_sum id Some (mk_datetime (py_int y) (py_int m) (py_int d) (py_int hh) (py_int mm))
      | None \<Rightarrow>
          (case rx_search en_rx text of
             Some (d, mon, y, hh, mm, ampm) \<Rightarrow>
               (case strptime_b (take 3 mon) of
                  Inl e \<Rightarrow> Inl e
                | Inr month_idx \<Rightarrow>
                    map_sum id Some
                      (mk_datetime (py_int y) month_idx (py_int d)
                         (py_int hh mod 12 + (if lower ampm = ascii ''pm'' then 12 else 0))
                         (py_int mm)))
           | None \<Rightarrow> Inr None))"


section \<open>Time on the wall clock of the reference zone\<close>

text \<open>
  All timestamps of a scan carry the same \<^verbatim>\<open>tzinfo\<close>, so Python compares them and adds a
  \<^verbatim>\<open>timedelta\<close> to them on the naive proleptic Gregorian wall clock. \<open>micros\<close> is the
  position of a timestamp on that line, in microseconds, built on \<^verbatim>\<open>toordinal\<close>
  (day 1 is 0001-01-01).
\<close>

definition days_before_year :: "nat \<Rightarrow> nat" where
  "days_before_year y = (y - 1) * 365 + (y - 1) div 4 - (y - 1) div 100 + (y - 1) div 400"

definition days_before_month :: "nat \<Rightarrow> nat \<Rightarrow> nat" where
  "days_before_month y m = sum_list (map (days_in_month y) [1..<m])"

definition toordinal :: "datetime \<Rightarrow> nat" where
  "toordinal t = days_before_year (year t) + days_before_month (year t) (month t) + day t"

definition micros :: "datetime \<Rightarrow> int" where
  "micros t =
     (((int (toordinal t) * 24 + int (hour t)) * 60 + int (minute t)) * 60 + int (second t))
       * 1000000 + int (microsecond t)"

text \<open>
  \<^verbatim>\<open>now + dt.timedelta(hours=h)\<close>: an \<^verbatim>\<open>OverflowError\<close> when the sum leaves the years
  1 to 9999 (which also covers an \<open>h\<close> too large for a \<^verbatim>\<open>timedelta\<close>).
\<close>

definition MAXORDINAL :: int where "MAXORDINAL = 3652059"

definition window_end :: "datetime \<Rightarrow> int \<Rightarrow> int" where
  "window_end now h = micros now + h * 3600000000"

definition threshold :: "datetime \<Rightarrow> int \<Rightarrow> exc + int" where
  "threshold now h =
     (let t = window_end now h;
          days = t div 86400000000
      in if 0 < days \<and> days \<le> MAXORDINAL then Inr t else Inl OverflowError)"

section \<open>The world a scan runs in\<close>

text \<open>
  An assignment entry, the dict \<^verbatim>\<open>{"label": .., "link": .., "due": ..}\<close>.
\<close>

record task =
  label :: ustr
  link :: "ustr option"
  due :: "datetime option"

text \<open>
  What the program changes or emits: the pages of the browser context that are open, the
  URLs the classifier navigated to, the calls of \<open>notify\<close>, the webhook requests (bearer
  token and message) and the lines printed on the console.
\<close>

record world =
  next_page :: nat
  open_pages :: "nat list"
  visited :: "ustr option list"
  notified :: "task list list"
  posted :: "(ustr \<times> ustr) list"
  console :: "ustr list"

text \<open>
  What the outside answers. Every Playwright or HTTP call may raise, so each answer is an
  exception or a value:
  \<^item> \<open>secrets\<close>: the key-ring entries of the service \<^verbatim>\<open>LETUS_CHECKER\<close>; \<open>environ\<close>: the process
    environment;
  \<^item> \<open>dashboard_login\<close>: in \<open>login\<close>, loading the dashboard and whether the timeline region
    is there;
  \<^item> \<open>open_login_form\<close>: the click on the login entry and the wait that follows;
  \<^item> \<open>submit_login\<close>: filling in both fields, pressing Enter, waiting; the page content;
  \<^item> \<open>timeline\<close>: in \<open>fetch_upcoming\<close>, loading the dashboard and waiting for the timeline,
    then for each item its inner text and the \<^verbatim>\<open>href\<close> of its anchor;
  \<^item> \<open>load\<close>: in \<open>is_submitted\<close>, navigating to the link (which the code passes on as it
    is, also when it is \<^verbatim>\<open>None\<close>), waiting for the DOM, the page content;
  \<^item> \<open>now_run\<close>, \<open>now_notify\<close>: the clock readings of \<open>run\<close> and of \<open>notify\<close>;
  \<^item> \<open>http_post\<close>: the webhook, given token and message: status code and body.
\<close>

record env =
  secrets :: "ustr \<Rightarrow> ustr option"
  environ :: "ustr \<Rightarrow> ustr option"
  dashboard_login :: "exc + bool"
  open_login_form :: "exc option"
  submit_login :: "ustr \<Rightarrow> ustr \<Rightarrow> exc + ustr"
  timeline :: "exc + (exc + ustr \<times> ustr option) list"
  load :: "ustr option \<Rightarrow> exc + ustr"
  now_run :: datetime
  now_notify :: datetime
  http_post :: "ustr \<Rightarrow> ustr \<Rightarrow> exc + nat \<times> ustr"

definition get_secret :: "env \<Rightarrow> ustr \<Rightarrow> ustr option" where
  "get_secret e key = secrets e key"

text \<open>Truth value of an optional string, and Python's \<^verbatim>\<open>a or b\<close> on two of them.\<close>

definition truthy :: "ustr option \<Rightarrow> bool" where
  "truthy v = (case v of None \<Rightarrow> False | Some s \<Rightarrow> s \<noteq> [])"

definition py_or :: "ustr option \<Rightarrow> ustr option \<Rightarrow> ustr option" where
  "py_or a b = (if truthy a then a else b)"

text \<open>\<^verbatim>\<open>needle in haystack\<close>, \<^verbatim>\<open>str.strip()\<close>, \<^verbatim>\<open>sep.join(..)\<close> and \<^verbatim>\<open>str(n)\<close>.\<close>

fun contains :: "ustr \<Rightarrow> ustr \<Rightarrow> bool" where
  "contains n [] = (n = [])"
| "contains n (c # r) = (take (length n) (c # r) = n \<or> contains n r)"

definition strip :: "ustr \<Rightarrow> ustr" where
  "strip s = rev (dropWhile is_space (rev (dropWhile is_space s)))"

fun join :: "ustr \<Rightarrow> ustr list \<Rightarrow> ustr" where
  "join sep [] = []"
| "join sep [x] = x"
| "join sep (x # y # r) = x @ sep @ join sep (y # r)"

fun dec :: "nat \<Rightarrow> ustr" where
  "dec n = (if n < 10 then [48 + n] else dec (n div 10) @ [48 + n mod 10])"

declare dec.simps [simp del]

definition str_int :: "int \<Rightarrow> ustr" where
  "str_int i = (if i < 0 then 45 # dec (nat (- i)) else dec (nat i))"

section \<open>notify\<close>

text \<open>
  The hours left are \<^verbatim>\<open>int((due - now).total_seconds() // 3600)\<close>, taken here as the exact
  floor of the difference. An entry without a due date would make the subtraction a
  \<^verbatim>\<open>TypeError\<close>.
\<close>

fun alert_lines :: "datetime \<Rightarrow> task list \<Rightarrow> exc + ustr list" where
  "alert_lines now [] = Inr []"
| "alert_lines now (t # ts) =
     (case due t of
        None \<Rightarrow> Inl TypeError
      | Some d \<Rightarrow>
          (case alert_lines now ts of
             Inl e \<Rightarrow> Inl e
           | Inr ls \<Rightarrow>
               Inr (([8226, 32] @ label t @ [32, 40, 12354, 12392, 32]
                     @ str_int ((micros d - micros now) div 3600000000) @ [104, 41]) # ls)))"

text \<open>The text of the notification: a head line with the count, then one line per entry.\<close>

definition message :: "datetime \<Rightarrow> task list \<Rightarrow> exc + ustr" where
  "message now alerts =
     (let head = [9888, 32, 76, 69, 84, 85, 83, 58, 32, 26410, 25552, 20986, 35506, 38988, 32]
                   @ dec (length alerts) @ [32, 20214, 10]
      in case alert_lines now alerts of
           Inl x \<Rightarrow> Inl x
         | Inr ls \<Rightarrow> Inr (join [10] (head # ls)))"

text \<open>
  \<open>notify\<close> records its call in \<open>notified\<close>. The token is read before the message is
  built, the message is built before anything is sent or printed.
\<close>

definition notify :: "env \<Rightarrow> task list \<Rightarrow> world \<Rightarrow> (exc + unit) \<times> world" where
  "notify e alerts w =
     (let w1 = w\<lparr>notified := notified w @ [alerts]\<rparr>;
          token = py_or (environ e (ascii ''LINE_NOTIFY_TOKEN'')) (get_secret e (ascii ''LINE_TOKEN''))
      in case message (now_notify e) alerts of
           Inl x \<Rightarrow> (Inl x, w1)
         | Inr msg \<Rightarrow>
             (case (if truthy token then token else None) of
                Some tok \<Rightarrow>
                  (let w2 = w1\<lparr>posted := posted w1 @ [(tok, msg)]\<rparr> in
                   case http_post e tok msg of
                     Inl x \<Rightarrow> (Inl x, w2)
                   | Inr (status, body) \<Rightarrow>
                       if status \<noteq> 200
                       then (Inr (), w2\<lparr>console := console w2
                               @ [ascii ''[bold red]LINE Notify failed:[/bold red] '' @ body]\<rparr>)
                       else (Inr (), w2))
              | None \<Rightarrow> (Inr (), w1\<lparr>console := console w1 @ [msg]\<rparr>)))"

section \<open>LetusChecker\<close>

definition CREDENTIALS_MISSING :: ustr where
  "CREDENTIALS_MISSING = ascii ''Credentials not stored; run with --configure first.''"

definition LOGIN_FAILED :: ustr where
  "LOGIN_FAILED = ascii ''Login failed '' @ [8211] @ ascii '' check credentials/MFA.''"

definition LOGIN_ERROR_MARKER :: ustr where
  "LOGIN_ERROR_MARKER = [12525, 12464, 12452, 12531, 12456, 12521, 12540]"

text \<open>
  \<open>login\<close> opens a page in the context and returns it; no path of the class closes a page.
\<close>

definition login :: "env \<Rightarrow> world \<Rightarrow> (exc + nat) \<times> world" where
  "login e w =
     (let page = next_page w;
          w1 = w\<lparr>next_page := page + 1, open_pages := open_pages w @ [page]\<rparr>
      in case dashboard_login e of
           Inl x \<Rightarrow> (Inl x, w1)
         | Inr True \<Rightarrow> (Inr page, w1)
         | Inr False \<Rightarrow>
             (case open_login_form e of
                Some x \<Rightarrow> (Inl x, w1)
              | None \<Rightarrow>
                  (let u = get_secret e (ascii ''USERNAME'');
                       p = get_secret e (ascii ''PASSWORD'')
                   in if \<not> truthy u \<or> \<not> truthy p
                      then (Inl (RuntimeError CREDENTIALS_MISSING), w1)
                      else (case submit_login e (the u) (the p) of
                              Inl x \<Rightarrow> (Inl x, w1)
                            | Inr content \<Rightarrow>
                                if contains LOGIN_ERROR_MARKER content
                                then (Inl (RuntimeError LOGIN_FAILED), w1)
                                else (Inr page, w1)))))"

fun read_items :: "(exc + ustr \<times> ustr option) list \<Rightarrow> exc + task list" where
  "read_items [] = Inr []"
| "read_items (Inl x # r) = Inl x"
| "read_items (Inr (text, href) # r) =
     (case parse_due_date (strip text) of
        Inl x \<Rightarrow> Inl x
      | Inr d \<Rightarrow>
          (case read_items r of
             Inl x \<Rightarrow> Inl x
           | Inr items \<Rightarrow> Inr (\<lparr>label = strip text, link = href, due = d\<rparr> # items)))"

definition fetch_upcoming :: "env \<Rightarrow> exc + task list" where
  "fetch_upcoming e = (case timeline e of Inl x \<Rightarrow> Inl x | Inr its \<Rightarrow> read_items its)"

definition SUBMITTED_JP :: ustr where
  "SUBMITTED_JP = [25552, 20986, 28168]"

definition has_submitted_marker :: "ustr \<Rightarrow> bool" where
  "has_submitted_marker html =
     (contains SUBMITTED_JP html \<or> contains (ascii ''Submitted for grading'') html)"

definition is_submitted :: "env \<Rightarrow> ustr option \<Rightarrow> world \<Rightarrow> (exc + bool) \<times> world" where
  "is_submitted e lnk w =
     (let w1 = w\<lparr>visited := visited w @ [lnk]\<rparr>
      in case load e lnk of
           Inl x \<Rightarrow> (Inl x, w1)
         | Inr html \<Rightarrow> (Inr (has_submitted_marker html), w1))"

text \<open>
  The test \<^verbatim>\<open>task["due"] and task["due"] <= threshold\<close> of the loop. A \<^verbatim>\<open>datetime\<close> is
  always true, so the first half only asks whether the due date is there.
\<close>

definition in_window :: "int \<Rightarrow> task \<Rightarrow> bool" where
  "in_window th t = (case due t of None \<Rightarrow> False | Some d \<Rightarrow> micros d \<le> th)"

text \<open>The loop of \<open>run\<close> over \<open>upcoming\<close>, with \<open>alerts\<close> as accumulator.\<close>

fun classify :: "env \<Rightarrow> int \<Rightarrow> task list \<Rightarrow> task list \<Rightarrow> world \<Rightarrow> (exc + task list) \<times> world" where
  "classify e th [] alerts w = (Inr alerts, w)"
| "classify e th (t # ts) alerts w =
     (if in_window th t
      then (case is_submitted e (link t) w of
              (Inl x, w') \<Rightarrow> (Inl x, w')
            | (Inr s, w') \<Rightarrow> classify e th ts (if \<not> s then alerts @ [t] else alerts) w')
      else classify e th ts alerts w)"

definition run :: "env \<Rightarrow> int \<Rightarrow> world \<Rightarrow> (exc + nat) \<times> world" where
  "run e due_within_h w =
     (case login e w of
        (Inl x, w1) \<Rightarrow> (Inl x, w1)
      | (Inr page, w1) \<Rightarrow>
          (case fetch_upcoming e of
             Inl x \<Rightarrow> (Inl x, w1)
           | Inr upcoming \<Rightarrow>
               (case threshold (now_run e) due_within_h of
                  Inl x \<Rightarrow> (Inl x, w1)
                | Inr th \<Rightarrow>
                    (case classify e th upcoming [] w1 of
                       (Inl x, w2) \<Rightarrow> (Inl x, w2)
                     | (Inr alerts, w2) \<Rightarrow>
                         if alerts \<noteq> []
                         then (case notify e alerts w2 of
                                 (Inl x, w3) \<Rightarrow> (Inl x, w3)
                               | (Inr _, w3) \<Rightarrow> (Inr (length alerts), w3))
                         else (Inr (length alerts), w2)))))"

text \<open>
  The loop of the watch mode, \<^verbatim>\<open>while True: count = await checker.run(..); ..; sleep\<close>, over
  the environments its successive iterations meet: it ends only by an exception of a scan.
\<close>

fun watch :: "bool \<Rightarrow> env list \<Rightarrow> int \<Rightarrow> world \<Rightarrow> exc option \<times> world" where
  "watch quiet [] h w = (None, w)"
| "watch quiet (e # es) h w =
     (case run e h w of
        (Inl x, w') \<Rightarrow> (Some x, w')
      | (Inr count, w') \<Rightarrow>
          watch quiet es h
            (if \<not> quiet \<and> count = 0
             then w'\<lparr>console := console w' @ [ascii ''[dim]No deadlines soon.[/dim]'']\<rparr>
             else w'))"

section \<open>The rendering of the round-trip property\<close>

text \<open>
  The localized form the round-trip property renders its five numbers in: the year on four
  digits, month, day and hour on \<open>wm\<close>, \<open>wd\<close> and \<open>wh\<close> digits at least (1 for the plain
  number, 2 for a leading zero), the minute on two digits, with the three glyphs between
  the date fields and one space before the time, as in the label \<^verbatim>\<open>2024<nen>7<gatsu>5<nichi> 15:30\<close>.
\<close>

definition zpad :: "nat \<Rightarrow> ustr \<Rightarrow> ustr" where
  "zpad w s = replicate (w - length s) 48 @ s"

definition render_localized ::
  "nat \<Rightarrow> nat \<Rightarrow> nat \<Rightarrow> nat \<Rightarrow> nat \<Rightarrow> nat \<Rightarrow> nat \<Rightarrow> nat \<Rightarrow> ustr" where
  "render_localized wm wd wh y m d hh mm =
     zpad 4 (dec y) @ [NEN] @ zpad wm (dec m) @ [GATSU] @ zpad wd (dec d) @ [NICHI] @ [32]
       @ zpad wh (dec hh) @ [COLON] @ zpad 2 (dec mm)"

section \<open>Notions of the specification\<close>

text \<open>
  The at-risk entries of a scan, in the words of the specification: the entries due within
  the window whose page does not show a submitted marker.
\<close>

definition at_risk :: "env \<Rightarrow> int \<Rightarrow> task list \<Rightarrow> task list" where
  "at_risk e th upcoming =
     filter (\<lambda>t. in_window th t
                 \<and> (case load e (link t) of Inl _ \<Rightarrow> False | Inr html \<Rightarrow> \<not> has_submitted_marker html))
       upcoming"

text \<open>A timeline item that is read without error and whose label gives no due date.\<close>

definition absent_due :: "exc + ustr \<times> ustr option \<Rightarrow> bool" where
  "absent_due it =
     (case it of Inl _ \<Rightarrow> False | Inr (text, href) \<Rightarrow> parse_due_date (strip text) = Inr None)"

section \<open>Example worlds\<close>

definition fresh_world :: world where
  "fresh_world = \<lparr>next_page = 0, open_pages = [], visited = [], notified = [], posted = [],
                    console = []\<rparr>"

text \<open>
  The end-to-end scenario: a session that is still valid, one timeline item labelled
  \<^verbatim>\<open>Report due 2025<nen>8<gatsu>5<nichi> 21:00\<close> whose page shows no submitted marker, the
  clock at 2025-08-04 10:00, no notification token.
\<close>

definition scenario_label :: ustr where
  "scenario_label = ascii ''Report due '' @ render_localized 1 1 1 2025 8 5 21 0"

definition scenario_due :: datetime where
  "scenario_due = \<lparr>year = 2025, month = 8, day = 5, hour = 21, minute = 0, second = 0,
                     microsecond = 0\<rparr>"

definition scenario :: env where
  "scenario =
     \<lparr>secrets = (\<lambda>k. None), environ = (\<lambda>k. None),
      dashboard_login = Inr True, open_login_form = None,
      submit_login = (\<lambda>u p. Inr []),
      timeline = Inr [Inr (scenario_label, Some (ascii ''https://letus.ed.tus.ac.jp/mod/assign/view.php?id=1''))],
      load = (\<lambda>l. Inr (ascii ''<html>No attempt</html>'')),
      now_run = \<lparr>year = 2025, month = 8, day = 4, hour = 10, minute = 0, second = 0,
                   microsecond = 0\<rparr>,
      now_notify = \<lparr>year = 2025, month = 8, day = 4, hour = 10, minute = 0, second = 1,
                      microsecond = 0\<rparr>,
      http_post = (\<lambda>t m. Inr (200, []))\<rparr>"

text \<open>
  Two login attempts without a valid session: one with an empty key ring, one with stored
  credentials that the site rejects with its login-error page.
\<close>

definition no_credentials :: env where
  "no_credentials = scenario\<lparr>dashboard_login := Inr False\<rparr>"

definition rejected :: env where
  "rejected =
     scenario\<lparr>dashboard_login := Inr False,
              secrets := (\<lambda>k. Some (ascii ''x'')),
              submit_login := (\<lambda>u p. Inr (ascii ''<p>'' @ LOGIN_ERROR_MARKER @ ascii ''</p>''))\<rparr>"

definition scenario_task :: task where
  "scenario_task = \<lparr>label = scenario_label,
     link = Some (ascii ''https://letus.ed.tus.ac.jp/mod/assign/view.php?id=1''),
     due = Some scenario_due\<rparr>"


definition scenario_message :: ustr where
  "scenario_message =
     [9888, 32, 76, 69, 84, 85, 83, 58, 32, 26410, 25552, 20986, 35506, 38988, 32, 49, 32,
      20214, 10, 10, 8226, 32] @ scenario_label @ [32, 40, 12354, 12392, 32, 51, 52, 104, 41]"

text \<open>
  Variations of the scenario: the item has no anchor target and no page loads; a second
  item without any date comes first; the environment variable of the token is set to the
  empty string while the key ring holds a token.
\<close>

definition unreachable :: env where
  "unreachable =
     scenario\<lparr>timeline := Inr [Inr (scenario_label, None)],
              load := (\<lambda>l. Inl (BrowserError (ascii ''Page.goto: navigation failed'')))\<rparr>"

definition undated :: env where
  "undated =
     scenario\<lparr>timeline :=
       Inr [Inr (ascii '' Quiz (no deadline) '',
                 Some (ascii ''https://letus.ed.tus.ac.jp/mod/quiz/view.php'')),
            Inr (scenario_label,
                 Some (ascii ''https://letus.ed.tus.ac.jp/mod/assign/view.php?id=1''))]\<rparr>"

definition with_tokens :: env where
  "with_tokens =
     scenario\<lparr>environ := (\<lambda>k. if k = ascii ''LINE_NOTIFY_TOKEN'' then Some [] else None),
              secrets := (\<lambda>k. if k = ascii ''LINE_TOKEN'' then Some (ascii ''stored-token'')
                               else None)\<rparr>"

section \<open>Facts about the matcher\<close>


lemma is_digit_low: "c < 1632 \<Longrightarrow> is_digit c = (48 \<le> c \<and> c \<le> 57)"
  by (simp add: is_digit_def digit_value_def decimal_zeros_def) arith

lemma digit_value_ascii: "48 \<le> c \<Longrightarrow> c \<le> 57 \<Longrightarrow> digit_value c = Some (c - 48)"
  by (simp add: digit_value_def decimal_zeros_def)

lemma not_digit_glyphs: "\<not> is_digit NEN" "\<not> is_digit GATSU" "\<not> is_digit NICHI" "\<not> is_digit COLON"
  by (simp_all add: is_digit_def digit_value_def decimal_zeros_def NEN_def GATSU_def NICHI_def COLON_def)

lemma whitespace_not_digit: "list_all (\<lambda>c. \<not> is_digit c) whitespace"
  by (simp add: whitespace_def is_digit_def digit_value_def decimal_zeros_def)

lemma space_not_digit: "is_space c \<Longrightarrow> \<not> is_digit c"
  using whitespace_not_digit by (simp add: is_space_def list_all_iff)

lemma rx_search_first: "m s = x # xs \<Longrightarrow> rx_search m s = Some x"
  by (cases s) simp_all

lemma rx_search_none: "(\<And>t. m t = []) \<Longrightarrow> rx_search m s = None"
  by (induction s) simp_all

lemma rx_digits_app:
  "length ds = n \<Longrightarrow> list_all is_digit ds \<Longrightarrow> rx_digits n k (ds @ r) = k ds r"
  by (simp add: rx_digits_def)

lemma rx_digits_nondigit: "\<not> is_digit c \<Longrightarrow> 0 < n \<Longrightarrow> rx_digits n k (c # r) = []"
  by (cases n) (simp_all add: rx_digits_def)

lemma rx_digits_nil: "0 < n \<Longrightarrow> rx_digits n k [] = []"
  by (simp add: rx_digits_def)

lemma rx_digits12_nondigit: "\<not> is_digit c \<Longrightarrow> rx_digits12 k (c # r) = []"
  by (simp add: rx_digits12_def rx_digits_nondigit)

lemma rx_digits12_nil: "rx_digits12 k [] = []"
  by (simp add: rx_digits12_def rx_digits_nil)

lemma rx_digits12_then:
  assumes ds: "list_all is_digit ds" "length ds = 1 \<or> length ds = 2"
    and t: "t = [] \<or> \<not> is_digit (hd t)"
    and k: "\<And>d a r. is_digit a \<Longrightarrow> k d (a # r) = []"
  shows "rx_digits12 k (ds @ t) = k ds t"
proof -
  from ds(2) consider a where "ds = [a]" | a b where "ds = [a, b]"
    by (cases ds; cases "tl ds"; cases "tl (tl ds)") auto
  then show ?thesis
  proof cases
    case 1
    with ds t show ?thesis
      by (cases t) (auto simp add: rx_digits12_def rx_digits_def)
  next
    case 2
    with ds k show ?thesis
      by (auto simp add: rx_digits12_def rx_digits_def)
  qed
qed

lemma rx_chr_digit: "is_digit a \<Longrightarrow> \<not> is_digit c \<Longrightarrow> rx_chr (\<lambda>x. x = c) k (a # r) = []"
  by (auto simp add: rx_chr_def)

lemma rx_spaces_skip:
  assumes "list_all is_space ws" and "t = [] \<or> \<not> is_space (hd t)"
    and "\<And>c r. is_space c \<Longrightarrow> k (c # r) = []"
  shows "rx_spaces k (ws @ t) = k t"
  using assms(1)
proof (induction ws)
  case Nil
  from assms(2) show ?case by (cases t) simp_all
next
  case (Cons w ws)
  then show ?case by (simp add: assms(3))
qed

lemma rx_spaces1_skip:
  assumes "list_all is_space ws" "ws \<noteq> []" and "t = [] \<or> \<not> is_space (hd t)"
    and "\<And>c r. is_space c \<Longrightarrow> k (c # r) = []"
  shows "rx_spaces1 k (ws @ t) = k t"
  using assms(1,2) rx_spaces_skip [of "tl ws" t k, OF _ assms(3,4)]
  by (cases ws) (simp_all add: rx_spaces1_def rx_chr_def)

lemma rx_spaces1_digit: "is_digit a \<Longrightarrow> rx_spaces1 k (a # r) = []"
  using space_not_digit [of a] by (auto simp add: rx_spaces1_def rx_chr_def)

lemma rx_lazy_any_skip:
  assumes "list_all (\<lambda>c. \<not> is_digit c \<and> c \<noteq> 10) fs"
    and "\<And>c r. \<not> is_digit c \<Longrightarrow> k (c # r) = []"
  shows "\<exists>X. rx_lazy_any k (fs @ t) = k t @ X"
  using assms(1)
proof (induction fs)
  case Nil
  show ?case by (cases t) auto
next
  case (Cons f fs)
  then show ?case by (simp add: assms(2))
qed

text \<open>The localized pattern on a text that starts with a rendered date.\<close>

lemma jp_rx_rendered:
  assumes y: "list_all is_digit ys" "length ys = 4"
    and m: "list_all is_digit ms" "length ms = 1 \<or> length ms = 2"
    and d: "list_all is_digit ds" "length ds = 1 \<or> length ds = 2"
    and w: "list_all is_space ws"
    and h: "list_all is_digit hs" "length hs = 1 \<or> length hs = 2"
    and n: "list_all is_digit ns" "length ns = 2"
  shows "jp_rx (ys @ NEN # ms @ GATSU # ds @ NICHI # ws @ hs @ COLON # ns @ rest)
           = [(ys, ms, ds, hs, ns)]"
proof -
  have hd_h: "is_digit (hd (hs @ COLON # ns @ rest))"
    using h by (cases hs) auto
  then have nsp: "hs @ COLON # ns @ rest = [] \<or> \<not> is_space (hd (hs @ COLON # ns @ rest))"
    using space_not_digit by blast
  show ?thesis
    unfolding jp_rx_def
    apply (subst rx_digits_app [OF y(2) y(1)])
    apply (simp only: rx_chr_def list.case if_True refl)
    apply (subst rx_digits12_then [OF m])
      apply (simp add: not_digit_glyphs)
     apply (simp add: rx_chr_digit not_digit_glyphs)
    apply (simp only: rx_chr_def list.case if_True refl)
    apply (subst rx_digits12_then [OF d])
      apply (simp add: not_digit_glyphs)
     apply (simp add: rx_chr_digit not_digit_glyphs)
    apply (simp only: rx_chr_def list.case if_True refl)
    apply (subst rx_spaces_skip [OF w nsp])
     apply (simp add: rx_digits12_nondigit space_not_digit)
    apply (subst rx_digits12_then [OF h])
      apply (simp add: not_digit_glyphs)
     apply (simp add: rx_chr_digit not_digit_glyphs)
    apply (simp only: rx_chr_def list.case if_True refl)
    apply (subst rx_digits_app [OF n(2) n(1)])
    apply (rule refl)
    done
qed

section \<open>Decimal rendering\<close>

lemma py_int_snoc: "py_int (s @ [c]) = 10 * py_int s + (case digit_value c of Some v \<Rightarrow> v | None \<Rightarrow> 0)"
  by (simp add: py_int_def)

lemma dec_digits: "list_all is_digit (dec n)"
proof (induction n rule: dec.induct)
  case (1 n)
  show ?case
  proof (cases "n < 10")
    case True
    then show ?thesis by (subst dec.simps) (simp add: is_digit_low)
  next
    case False
    have "n mod 10 < 10" by simp
    then have "is_digit (48 + n mod 10)" by (simp add: is_digit_low)
    with False 1 show ?thesis by (subst dec.simps) simp
  qed
qed

lemma py_int_dec: "py_int (dec n) = n"
proof (induction n rule: dec.induct)
  case (1 n)
  show ?case
  proof (cases "n < 10")
    case True
    then show ?thesis by (subst dec.simps) (simp add: py_int_def digit_value_ascii)
  next
    case False
    have "n mod 10 < 10" by simp
    then have "digit_value (48 + n mod 10) = Some (n mod 10)" by (simp add: digit_value_ascii)
    with False 1 show ?thesis by (subst dec.simps) (simp add: py_int_snoc)
  qed
qed

lemma length_dec_pos: "0 < length (dec n)"
  by (subst dec.simps) simp

lemma length_dec_1: "n < 10 \<Longrightarrow> length (dec n) = 1"
  by (subst dec.simps) simp

lemma length_dec_2: "10 \<le> n \<Longrightarrow> n < 100 \<Longrightarrow> length (dec n) = 2"
  by (subst dec.simps) (simp add: length_dec_1)

lemma length_dec_3: "100 \<le> n \<Longrightarrow> n < 1000 \<Longrightarrow> length (dec n) = 3"
  by (subst dec.simps) (simp add: length_dec_2)

lemma length_dec_4: "1000 \<le> n \<Longrightarrow> n < 10000 \<Longrightarrow> length (dec n) = 4"
  by (subst dec.simps) (simp add: length_dec_3)

lemma length_dec_le2: "n < 100 \<Longrightarrow> length (dec n) = 1 \<or> length (dec n) = 2"
  using length_dec_1 [of n] length_dec_2 [of n] by (cases "n < 10") auto

lemma length_dec_le4: "n < 10000 \<Longrightarrow> length (dec n) \<le> 4"
  using length_dec_1 [of n] length_dec_2 [of n] length_dec_3 [of n] length_dec_4 [of n]
  by (cases "n < 10"; cases "n < 100"; cases "n < 1000") auto

lemma py_int_zeros: "py_int (replicate k 48 @ s) = py_int s"
proof -
  have "foldl (\<lambda>a c. 10 * a + (case digit_value c of Some v \<Rightarrow> v | None \<Rightarrow> 0)) 0 (replicate k 48) = 0"
    by (induction k) (simp_all add: digit_value_ascii)
  then show ?thesis by (simp add: py_int_def)
qed

lemma zpad_digits: "list_all is_digit (zpad w (dec n))"
  using dec_digits [of n] by (auto simp add: zpad_def list_all_iff is_digit_low)

lemma py_int_zpad: "py_int (zpad w (dec n)) = n"
  by (simp add: zpad_def py_int_zeros py_int_dec)

lemma length_zpad: "length (zpad w s) = max w (length s)"
  by (simp add: zpad_def)

lemma length_zpad_12: "n < 100 \<Longrightarrow> w = 1 \<or> w = 2 \<Longrightarrow> length (zpad w (dec n)) = 1 \<or> length (zpad w (dec n)) = 2"
  using length_dec_le2 [of n] by (auto simp add: length_zpad)

section \<open>The parser on rendered dates\<close>

lemma jp_rx_nondigit: "\<not> is_digit c \<Longrightarrow> jp_rx (c # r) = []"
  by (simp add: jp_rx_def rx_digits_nondigit)

lemma rx_search_jp_skip:
  "list_all (\<lambda>c. \<not> is_digit c) pre \<Longrightarrow> rx_search jp_rx (pre @ s) = rx_search jp_rx s"
  by (induction pre) (simp_all add: jp_rx_nondigit)

lemma parse_rendered:
  assumes "1 \<le> y" "y \<le> 9999" "1 \<le> m" "m \<le> 12" "1 \<le> d" "d \<le> days_in_month y m"
    "hh \<le> 23" "mm \<le> 59"
    and "wm = 1 \<or> wm = 2" "wd = 1 \<or> wd = 2" "wh = 1 \<or> wh = 2"
    and pre: "list_all (\<lambda>c. \<not> is_digit c) pre"
  shows "parse_due_date (pre @ render_localized wm wd wh y m d hh mm @ rest)
           = Inr (Some \<lparr>year = y, month = m, day = d, hour = hh, minute = mm,
                         second = 0, microsecond = 0\<rparr>)"
proof -
  have d31: "d \<le> 31" using assms(6) by (simp add: days_in_month_def split: if_splits)
  have ly: "length (zpad 4 (dec y)) = 4"
    using length_dec_le4 [of y] assms(2) by (simp add: length_zpad)
  have lm: "length (zpad wm (dec m)) = 1 \<or> length (zpad wm (dec m)) = 2"
    using assms by (intro length_zpad_12) simp_all
  have ld: "length (zpad wd (dec d)) = 1 \<or> length (zpad wd (dec d)) = 2"
    using assms d31 by (intro length_zpad_12) simp_all
  have lh: "length (zpad wh (dec hh)) = 1 \<or> length (zpad wh (dec hh)) = 2"
    using assms by (intro length_zpad_12) simp_all
  have ln: "length (zpad 2 (dec mm)) = 2"
    using length_dec_le2 [of mm] assms(8) by (auto simp add: length_zpad)
  have sp: "list_all is_space [32]" by (simp add: is_space_def whitespace_def)
  have "jp_rx (render_localized wm wd wh y m d hh mm @ rest)
          = [(zpad 4 (dec y), zpad wm (dec m), zpad wd (dec d), zpad wh (dec hh), zpad 2 (dec mm))]"
    using jp_rx_rendered [OF zpad_digits ly zpad_digits lm zpad_digits ld sp zpad_digits lh zpad_digits ln, of rest]
    by (simp add: render_localized_def)
  then have "rx_search jp_rx (render_localized wm wd wh y m d hh mm @ rest)
          = Some (zpad 4 (dec y), zpad wm (dec m), zpad wd (dec d), zpad wh (dec hh), zpad 2 (dec mm))"
    by (rule rx_search_first)
  then have "rx_search jp_rx (pre @ render_localized wm wd wh y m d hh mm @ rest)
          = Some (zpad 4 (dec y), zpad wm (dec m), zpad wd (dec d), zpad wh (dec hh), zpad 2 (dec mm))"
    using rx_search_jp_skip [OF pre] by simp
  then show ?thesis
    using assms(1-8) by (simp add: parse_due_date_def py_int_zpad mk_datetime_def)
qed

text \<open>
  Claim C8. Round trip of the localized form: for a year from 1 to 9999, a month from 1 to
  12, a day of that month, an hour up to 23 and a minute up to 59, rendered in the
  localized form (with or without leading zeros, after any text without digits and before
  any text at all), \<open>parse_due_date\<close> returns the timestamp with exactly those five
  components, at second 0 in the reference zone.
\<close>

theorem parse_due_date_localized:
  assumes "1 \<le> y" "y \<le> 9999" "1 \<le> m" "m \<le> 12" "1 \<le> d" "d \<le> days_in_month y m"
    "hh \<le> 23" "mm \<le> 59"
    and "wm = 1 \<or> wm = 2" "wd = 1 \<or> wd = 2" "wh = 1 \<or> wh = 2"
    and "list_all (\<lambda>c. \<not> is_digit c) pre"
  shows "parse_due_date (pre @ render_localized wm wd wh y m d hh mm @ rest)
           = Inr (Some \<lparr>year = y, month = m, day = d, hour = hh, minute = mm,
                         second = 0, microsecond = 0\<rparr>)"
  using assms by (rule parse_rendered)

theorem parse_due_date_localized_witness:
  "parse_due_date ([] @ render_localized 1 1 1 2024 7 5 15 30 @ [32, 12414, 12391])
     = Inr (Some \<lparr>year = 2024, month = 7, day = 5, hour = 15, minute = 30,
                   second = 0, microsecond = 0\<rparr>)"
  using parse_due_date_localized [of 2024 7 5 15 30 1 1 1 "[]" "[32, 12414, 12391]"]
  by (simp add: days_in_month_def)

section \<open>Facts about the scan\<close>

lemma login_world:
  "snd (login e w) = w\<lparr>next_page := next_page w + 1, open_pages := open_pages w @ [next_page w]\<rparr>"
  by (simp add: login_def Let_def split: sum.splits bool.splits option.splits)

lemma is_submitted_world: "snd (is_submitted e l w) = w\<lparr>visited := visited w @ [l]\<rparr>"
  by (simp add: is_submitted_def Let_def split: sum.splits)

lemma is_submitted_fst:
  "fst (is_submitted e l w) = map_sum id has_submitted_marker (load e l)"
  by (simp add: is_submitted_def Let_def split: sum.splits)

lemma classify_step:
  "classify e th (t # ts) acc w =
     (if in_window th t
      then (case load e (link t) of
              Inl x \<Rightarrow> (Inl x, w\<lparr>visited := visited w @ [link t]\<rparr>)
            | Inr html \<Rightarrow>
                classify e th ts (if \<not> has_submitted_marker html then acc @ [t] else acc)
                  (w\<lparr>visited := visited w @ [link t]\<rparr>))
      else classify e th ts acc w)"
  by (simp add: is_submitted_def Let_def split: sum.splits)

declare classify.simps(2) [simp del]

lemma classify_frame:
  "next_page (snd (classify e th ts acc w)) = next_page w
   \<and> open_pages (snd (classify e th ts acc w)) = open_pages w
   \<and> notified (snd (classify e th ts acc w)) = notified w
   \<and> posted (snd (classify e th ts acc w)) = posted w
   \<and> console (snd (classify e th ts acc w)) = console w"
proof (induction ts arbitrary: acc w)
  case Nil
  show ?case by simp
next
  case (Cons t ts)
  show ?case
    unfolding classify_step using Cons.IH by (simp split: sum.splits)
qed

lemma classify_visited_prefix:
  "\<exists>k. visited (snd (classify e th ts acc w))
          = visited w @ take k (map link (filter (in_window th) ts))"
proof (induction ts arbitrary: acc w)
  case Nil
  show ?case by simp
next
  case (Cons t ts)
  show ?case
  proof (cases "in_window th t")
    case False
    with Cons.IH [of acc w] show ?thesis by (simp add: classify_step)
  next
    case True
    show ?thesis
    proof (cases "load e (link t)")
      case (Inl x)
      with True have "visited (snd (classify e th (t # ts) acc w))
          = visited w @ take 1 (map link (filter (in_window th) (t # ts)))"
        by (simp add: classify_step)
      then show ?thesis by blast
    next
      case (Inr html)
      let ?acc = "if \<not> has_submitted_marker html then acc @ [t] else acc"
      let ?w = "w\<lparr>visited := visited w @ [link t]\<rparr>"
      from Cons.IH [of ?acc ?w] obtain k where
        "visited (snd (classify e th ts ?acc ?w))
           = visited ?w @ take k (map link (filter (in_window th) ts))" by blast
      with True Inr have "visited (snd (classify e th (t # ts) acc w))
          = visited w @ take (Suc k) (map link (filter (in_window th) (t # ts)))"
        by (simp add: classify_step)
      then show ?thesis by blast
    qed
  qed
qed

lemma classify_completes:
  assumes "classify e th ts acc w = (Inr alerts, w')"
  shows "alerts = acc @ at_risk e th ts
         \<and> visited w' = visited w @ map link (filter (in_window th) ts)"
  using assms
proof (induction ts arbitrary: acc w)
  case Nil
  then show ?case by (simp add: at_risk_def)
next
  case (Cons t ts)
  show ?case
  proof (cases "in_window th t")
    case False
    with Cons.prems have "classify e th ts acc w = (Inr alerts, w')"
      by (simp add: classify_step)
    from Cons.IH [OF this] False show ?thesis by (simp add: at_risk_def)
  next
    case True
    show ?thesis
    proof (cases "load e (link t)")
      case (Inl x)
      with True Cons.prems show ?thesis by (simp add: classify_step)
    next
      case (Inr html)
      let ?acc = "if \<not> has_submitted_marker html then acc @ [t] else acc"
      let ?w = "w\<lparr>visited := visited w @ [link t]\<rparr>"
      from True Inr Cons.prems have "classify e th ts ?acc ?w = (Inr alerts, w')"
        by (simp add: classify_step)
      from Cons.IH [OF this] True Inr show ?thesis by (simp add: at_risk_def)
    qed
  qed
qed

lemma classify_all_load:
  assumes "\<forall>t\<in>set ts. in_window th t \<longrightarrow> (\<exists>html. load e (link t) = Inr html)"
  shows "\<exists>w'. classify e th ts acc w = (Inr (acc @ at_risk e th ts), w')"
  using assms
proof (induction ts arbitrary: acc w)
  case Nil
  show ?case by (simp add: at_risk_def)
next
  case (Cons t ts)
  show ?case
  proof (cases "in_window th t")
    case False
    with Cons.IH [of acc w] Cons.prems show ?thesis by (simp add: classify_step at_risk_def)
  next
    case True
    with Cons.prems obtain html where html: "load e (link t) = Inr html" by auto
    let ?acc = "if \<not> has_submitted_marker html then acc @ [t] else acc"
    let ?w = "w\<lparr>visited := visited w @ [link t]\<rparr>"
    from Cons.IH [of ?acc ?w] Cons.prems obtain w' where
      "classify e th ts ?acc ?w = (Inr (?acc @ at_risk e th ts), w')" by auto
    with True html show ?thesis by (simp add: classify_step at_risk_def)
  qed
qed

lemma classify_fails:
  assumes "\<forall>u\<in>set pre. in_window th u \<longrightarrow> (\<exists>html. load e (link u) = Inr html)"
    and "in_window th t" and "load e (link t) = Inl x"
  shows "fst (classify e th (pre @ t # post) acc w) = Inl x"
  using assms(1)
proof (induction pre arbitrary: acc w)
  case Nil
  from assms(2,3) show ?case by (simp add: classify_step)
next
  case (Cons u pre)
  show ?case
  proof (cases "in_window th u")
    case False
    with Cons show ?thesis by (simp add: classify_step)
  next
    case True
    with Cons.prems obtain html where "load e (link u) = Inr html" by auto
    with True Cons show ?thesis by (simp add: classify_step)
  qed
qed

lemma classify_absent_due:
  "classify e th (filter (\<lambda>t. due t \<noteq> None) ts) acc w = classify e th ts acc w"
proof (induction ts arbitrary: acc w)
  case Nil
  show ?case by simp
next
  case (Cons t ts)
  show ?case
  proof (cases "due t")
    case None
    then have "\<not> in_window th t" by (simp add: in_window_def)
    with None Cons.IH show ?thesis by (simp add: classify_step)
  next
    case (Some d)
    with Cons.IH show ?thesis by (simp add: classify_step split: sum.splits)
  qed
qed

lemma notify_notified: "notified (snd (notify e a w)) = notified w @ [a]"
  by (simp add: notify_def Let_def split: sum.splits option.splits prod.splits)

lemma notify_frame:
  "next_page (snd (notify e a w)) = next_page w
   \<and> open_pages (snd (notify e a w)) = open_pages w
   \<and> visited (snd (notify e a w)) = visited w"
  by (simp add: notify_def Let_def split: sum.splits option.splits prod.splits)

lemma run_unfold:
  "run e h w =
     (case fst (login e w) of
        Inl x \<Rightarrow> (Inl x, snd (login e w))
      | Inr page \<Rightarrow>
          (case fetch_upcoming e of
             Inl x \<Rightarrow> (Inl x, snd (login e w))
           | Inr upcoming \<Rightarrow>
               (case threshold (now_run e) h of
                  Inl x \<Rightarrow> (Inl x, snd (login e w))
                | Inr th \<Rightarrow>
                    (case fst (classify e th upcoming [] (snd (login e w))) of
                       Inl x \<Rightarrow> (Inl x, snd (classify e th upcoming [] (snd (login e w))))
                     | Inr alerts \<Rightarrow>
                         if alerts \<noteq> []
                         then (case fst (notify e alerts (snd (classify e th upcoming [] (snd (login e w))))) of
                                 Inl x \<Rightarrow> (Inl x, snd (notify e alerts (snd (classify e th upcoming [] (snd (login e w))))))
                               | Inr u \<Rightarrow> (Inr (length alerts), snd (notify e alerts (snd (classify e th upcoming [] (snd (login e w)))))))
                         else (Inr (length alerts), snd (classify e th upcoming [] (snd (login e w))))))))"
proof -
  obtain r w1 where l: "login e w = (r, w1)" by (cases "login e w")
  show ?thesis
  proof (cases r)
    case (Inl x)
    with l show ?thesis by (simp add: run_def)
  next
    case page: (Inr page)
    show ?thesis
    proof (cases "fetch_upcoming e")
      case (Inl x)
      with l page show ?thesis by (simp add: run_def)
    next
      case up: (Inr upcoming)
      show ?thesis
      proof (cases "threshold (now_run e) h")
        case (Inl x)
        with l page up show ?thesis by (simp add: run_def)
      next
        case th: (Inr th)
        obtain c w2 where c: "classify e th upcoming [] w1 = (c, w2)"
          by (cases "classify e th upcoming [] w1")
        show ?thesis
        proof (cases c)
          case (Inl x)
          with l page up th c show ?thesis by (simp add: run_def)
        next
          case alerts: (Inr alerts)
          obtain n w3 where n: "notify e alerts w2 = (n, w3)"
            by (cases "notify e alerts w2")
          from l page up th c alerts n show ?thesis
            by (cases n) (simp_all add: run_def)
        qed
      qed
    qed
  qed
qed

lemma run_open_pages: "open_pages (snd (run e h w)) = open_pages w @ [next_page w]"
  by (simp add: run_unfold classify_frame notify_frame login_world split: sum.splits)

lemma run_next_page: "next_page (snd (run e h w)) = next_page w + 1"
  by (simp add: run_unfold classify_frame notify_frame login_world split: sum.splits)

lemma login_frame:
  "visited (snd (login e w)) = visited w \<and> notified (snd (login e w)) = notified w
   \<and> posted (snd (login e w)) = posted w \<and> console (snd (login e w)) = console w"
  by (simp add: login_world)

lemma threshold_Inr: "threshold now h = Inr th \<Longrightarrow> th = window_end now h"
  by (simp add: threshold_def Let_def split: if_splits)

lemma run_completes:
  assumes "fst (login e w) = Inr page" "fetch_upcoming e = Inr upcoming"
    "threshold (now_run e) h = Inr th"
    and "\<forall>t\<in>set upcoming. in_window th t \<longrightarrow> (\<exists>html. load e (link t) = Inr html)"
  shows "notified (snd (run e h w))
           = notified w @ (if at_risk e th upcoming = [] then [] else [at_risk e th upcoming])"
    and "fst (run e h w) = Inr n \<Longrightarrow> n = length (at_risk e th upcoming)"
proof -
  from classify_all_load [OF assms(4), of "[]" "snd (login e w)"] obtain w' where
    c: "classify e th upcoming [] (snd (login e w)) = (Inr (at_risk e th upcoming), w')"
    by auto
  have w': "notified w' = notified w"
    using classify_frame [of e th upcoming "[]" "snd (login e w)"] c by (simp add: login_frame)
  show "notified (snd (run e h w))
           = notified w @ (if at_risk e th upcoming = [] then [] else [at_risk e th upcoming])"
    using assms(1-3) c w' by (simp add: run_unfold notify_notified split: sum.splits)
  show "n = length (at_risk e th upcoming)" if "fst (run e h w) = Inr n"
    using that assms(1-3) c by (simp add: run_unfold split: sum.splits if_splits)
qed

lemma run_visited_prefix:
  assumes "fetch_upcoming e = Inr upcoming"
  shows "\<exists>k. visited (snd (run e h w))
           = visited w @ take k (map link (filter (in_window (window_end (now_run e) h)) upcoming))"
proof -
  have base: "visited (snd (login e w))
      = visited w @ take 0 (map link (filter (in_window (window_end (now_run e) h)) upcoming))"
    by (simp add: login_frame)
  show ?thesis
  proof (cases "fst (login e w)")
    case (Inl x)
    with base show ?thesis unfolding run_unfold by (auto simp del: take_0)
  next
    case (Inr page)
    show ?thesis
    proof (cases "threshold (now_run e) h")
      case (Inl x)
      with Inr assms base show ?thesis unfolding run_unfold by (auto simp del: take_0)
    next
      case th: (Inr th)
      then have eq: "th = window_end (now_run e) h" by (rule threshold_Inr)
      from classify_visited_prefix [of e th upcoming "[]" "snd (login e w)"]
      obtain k where k: "visited (snd (classify e th upcoming [] (snd (login e w))))
          = visited w @ take k (map link (filter (in_window th) upcoming))"
        by (auto simp add: login_frame)
      have "visited (snd (run e h w)) = visited (snd (classify e th upcoming [] (snd (login e w))))"
        using Inr assms th by (simp add: run_unfold notify_frame split: sum.splits)
      with k eq show ?thesis by auto
    qed
  qed
qed

lemma run_returns:
  assumes "fst (run e h w) = Inr n"
  obtains page upcoming th alerts where
    "fst (login e w) = Inr page" "fetch_upcoming e = Inr upcoming"
    "threshold (now_run e) h = Inr th"
    "fst (classify e th upcoming [] (snd (login e w))) = Inr alerts"
    "n = length alerts"
proof (cases "fst (login e w)")
  case (Inl x)
  with assms show ?thesis by (simp add: run_unfold)
next
  case page: (Inr page)
  show ?thesis
  proof (cases "fetch_upcoming e")
    case (Inl x)
    with assms page show ?thesis by (simp add: run_unfold)
  next
    case up: (Inr upcoming)
    show ?thesis
    proof (cases "threshold (now_run e) h")
      case (Inl x)
      with assms page up show ?thesis by (simp add: run_unfold)
    next
      case th: (Inr th)
      show ?thesis
      proof (cases "fst (classify e th upcoming [] (snd (login e w)))")
        case (Inl x)
        with assms page up th show ?thesis by (simp add: run_unfold)
      next
        case alerts: (Inr alerts)
        with assms page up th have "n = length alerts"
          by (simp add: run_unfold split: if_splits sum.splits)
        with page up th alerts that show ?thesis by blast
      qed
    qed
  qed
qed

lemma run_visited_complete:
  assumes "fetch_upcoming e = Inr upcoming" "fst (run e h w) = Inr n"
  shows "visited (snd (run e h w))
           = visited w @ map link (filter (in_window (window_end (now_run e) h)) upcoming)"
proof -
  from assms(2) obtain page up th alerts where
    p: "fst (login e w) = Inr page" and up: "fetch_upcoming e = Inr up"
    and th: "threshold (now_run e) h = Inr th"
    and c: "fst (classify e th up [] (snd (login e w))) = Inr alerts"
    by (rule run_returns)
  from up assms(1) have [simp]: "up = upcoming" by simp
  have v: "visited (snd (run e h w)) = visited (snd (classify e th upcoming [] (snd (login e w))))"
    using p assms(1) th by (simp add: run_unfold notify_frame split: sum.splits)
  have "classify e th upcoming [] (snd (login e w))
          = (Inr alerts, snd (classify e th upcoming [] (snd (login e w))))"
    using c by (simp add: prod_eq_iff)
  from classify_completes [OF this] threshold_Inr [OF th] v show ?thesis
    by (simp add: login_frame)
qed

lemma run_aborts:
  assumes "fst (login e w) = Inr page" "fetch_upcoming e = Inr (pre @ t # post)"
    "threshold (now_run e) h = Inr th"
    and "\<forall>u\<in>set pre. in_window th u \<longrightarrow> (\<exists>html. load e (link u) = Inr html)"
    and "in_window th t" "load e (link t) = Inl x"
  shows "fst (run e h w) = Inl x \<and> notified (snd (run e h w)) = notified w
         \<and> posted (snd (run e h w)) = posted w \<and> console (snd (run e h w)) = console w"
  using assms(1-3) classify_fails [OF assms(4-6), of post "[]" "snd (login e w)"]
    classify_frame [of e th "pre @ t # post" "[]" "snd (login e w)"]
  by (simp add: run_unfold login_frame)

lemma en_rx_nondigit: "\<not> is_digit c \<Longrightarrow> en_rx (c # r) = []"
  by (simp add: en_rx_def rx_digits12_nondigit)

lemma rx_search_no_digit:
  assumes "\<And>c r. \<not> is_digit c \<Longrightarrow> m (c # r) = []" and "m [] = []"
    and "list_all (\<lambda>c. \<not> is_digit c) s"
  shows "rx_search m s = None"
  using assms(3) by (induction s) (simp_all add: assms(1,2))

lemma parse_no_digit:
  assumes "list_all (\<lambda>c. \<not> is_digit c) s"
  shows "parse_due_date s = Inr None"
proof -
  have "rx_search jp_rx s = None"
    using assms by (intro rx_search_no_digit jp_rx_nondigit) (simp_all add: jp_rx_def rx_digits_nil)
  moreover have "rx_search en_rx s = None"
    using assms by (intro rx_search_no_digit en_rx_nondigit) (simp_all add: en_rx_def rx_digits12_nil)
  ultimately show ?thesis by (simp add: parse_due_date_def)
qed

lemma read_items_filter:
  "read_items (filter (\<lambda>it. \<not> absent_due it) items)
     = map_sum id (filter (\<lambda>t. due t \<noteq> None)) (read_items items)"
proof (induction items)
  case Nil
  show ?case by simp
next
  case (Cons it items)
  show ?case
  proof (cases it)
    case (Inl x)
    then show ?thesis by (simp add: absent_due_def)
  next
    case (Inr p)
    obtain lbl href where p: "p = (lbl, href)" by (cases p)
    show ?thesis
    proof (cases "parse_due_date (strip lbl)")
      case (Inl x)
      with Inr p show ?thesis by (simp add: absent_due_def)
    next
      case d: (Inr d)
      with Inr p Cons.IH show ?thesis
        by (cases d; cases "read_items items") (simp_all add: absent_due_def)
    qed
  qed
qed

lemma login_timeline: "login (e\<lparr>timeline := x\<rparr>) w = login e w"
  by (simp add: login_def get_secret_def Let_def split: sum.splits bool.splits option.splits)

lemma notify_timeline: "notify (e\<lparr>timeline := x\<rparr>) a w = notify e a w"
  by (simp add: notify_def get_secret_def Let_def split: sum.splits option.splits prod.splits)

lemma classify_timeline: "classify (e\<lparr>timeline := x\<rparr>) th ts acc w = classify e th ts acc w"
  by (induction ts arbitrary: acc w) (simp_all add: classify_step split: sum.splits)

lemma run_without_absent_due:
  assumes "timeline e = Inr items"
  shows "run (e\<lparr>timeline := Inr (filter (\<lambda>it. \<not> absent_due it) items)\<rparr>) h w = run e h w"
proof -
  let ?e = "e\<lparr>timeline := Inr (filter (\<lambda>it. \<not> absent_due it) items)\<rparr>"
  let ?w = "snd (login e w)"
  have f: "fetch_upcoming ?e = map_sum id (filter (\<lambda>t. due t \<noteq> None)) (fetch_upcoming e)"
    using assms by (simp add: fetch_upcoming_def read_items_filter del: not_None_eq)
  have n: "now_run ?e = now_run e" by simp
  note same = login_timeline notify_timeline classify_timeline n
  show ?thesis
  proof (cases "fst (login e w)")
    case (Inl x)
    then show ?thesis by (simp add: run_unfold same del: not_None_eq)
  next
    case page: (Inr page)
    show ?thesis
    proof (cases "fetch_upcoming e")
      case (Inl x)
      with page f show ?thesis by (simp add: run_unfold same del: not_None_eq)
    next
      case up: (Inr upcoming)
      show ?thesis
      proof (cases "threshold (now_run e) h")
        case (Inl x)
        with page up f show ?thesis by (simp add: run_unfold same del: not_None_eq)
      next
        case th: (Inr th)
        show ?thesis
        proof (cases "fst (classify e th upcoming [] ?w)")
          case (Inl x)
          with page up th f show ?thesis
            by (simp add: run_unfold same classify_absent_due del: not_None_eq)
        next
          case alerts: (Inr alerts)
          with page up th f show ?thesis
            by (cases "fst (notify e alerts (snd (classify e th upcoming [] ?w)))")
              (simp_all add: run_unfold same classify_absent_due del: not_None_eq)
        qed
      qed
    qed
  qed
qed

lemma at_risk_due: "t \<in> set (at_risk e th ts) \<Longrightarrow> due t \<noteq> None"
  by (auto simp add: at_risk_def in_window_def split: option.splits)

lemma run_notified_due:
  "b \<in> set (drop (length (notified w)) (notified (snd (run e h w)))) \<Longrightarrow> t \<in> set b
     \<Longrightarrow> due t \<noteq> None"
proof -
  assume b: "b \<in> set (drop (length (notified w)) (notified (snd (run e h w))))" and t: "t \<in> set b"
  have "\<exists>th up. b = at_risk e th up"
  proof (cases "fst (login e w)")
    case (Inl x)
    with b show ?thesis by (simp add: run_unfold login_frame)
  next
    case page: (Inr page)
    show ?thesis
    proof (cases "fetch_upcoming e")
      case (Inl x)
      with b page show ?thesis by (simp add: run_unfold login_frame)
    next
      case up: (Inr up)
      show ?thesis
      proof (cases "threshold (now_run e) h")
        case (Inl x)
        with b page up show ?thesis by (simp add: run_unfold login_frame)
      next
        case th: (Inr th)
        let ?c = "classify e th up [] (snd (login e w))"
        have n: "notified (snd ?c) = notified w"
          using classify_frame [of e th up "[]" "snd (login e w)"] by (simp add: login_frame)
        show ?thesis
        proof (cases "fst ?c")
          case (Inl x)
          with b page up th n show ?thesis by (simp add: run_unfold)
        next
          case (Inr alerts)
          then have "?c = (Inr alerts, snd ?c)" by (simp add: prod_eq_iff)
          from classify_completes [OF this] have "alerts = at_risk e th up" by simp
          with b page up th n Inr show ?thesis
            by (auto simp add: run_unfold notify_notified split: sum.splits if_splits)
        qed
      qed
    qed
  qed
  with t show ?thesis by (auto dest: at_risk_due)
qed

section \<open>The example worlds evaluated\<close>

lemma scenario_label_list:
  "scenario_label = [82, 101, 112, 111, 114, 116, 32, 100, 117, 101, 32, 50, 48, 50,
             53, 24180, 56, 26376, 53, 26085, 32, 50, 49, 58, 48, 48]"
  by (simp add: scenario_label_def render_localized_def zpad_def dec.simps ascii_def
      NEN_def GATSU_def NICHI_def COLON_def)

lemma strip_scenario_label: "strip scenario_label = scenario_label"
  by (simp add: scenario_label_list strip_def is_space_def whitespace_def)

lemma parse_scenario_label: "parse_due_date scenario_label = Inr (Some scenario_due)"
proof -
  have "list_all (\<lambda>c. \<not> is_digit c) (ascii ''Report due '')"
    by (simp add: ascii_def is_digit_low)
  from parse_rendered [OF _ _ _ _ _ _ _ _ _ _ _ this, of 2025 8 5 21 0 1 1 1 "[]"]
  show ?thesis by (simp add: scenario_label_def scenario_due_def days_in_month_def)
qed

lemma scenario_fetch: "fetch_upcoming scenario = Inr [scenario_task]"
  by (simp add: fetch_upcoming_def scenario_def strip_scenario_label parse_scenario_label
      scenario_task_def)

lemma scenario_login: "fst (login scenario w) = Inr (next_page w)"
  by (simp add: login_def scenario_def Let_def)

lemma micros_scenario_now: "micros (now_run scenario) = 63889984800000000"
  by (simp add: scenario_def micros_def toordinal_def days_before_year_def days_before_month_def
      days_in_month_def is_leap_def upt_rec)

lemma micros_scenario_due: "micros scenario_due = 63890110800000000"
  by (simp add: scenario_due_def micros_def toordinal_def days_before_year_def days_before_month_def
      days_in_month_def is_leap_def upt_rec)

lemma scenario_threshold:
  "threshold (now_run scenario) 48 = Inr 63890157600000000"
  "threshold (now_run scenario) 35 = Inr 63890110800000000"
  "threshold (now_run scenario) 34 = Inr 63890107200000000"
  by (simp_all add: threshold_def window_end_def micros_scenario_now Let_def MAXORDINAL_def)

lemma scenario_load: "load scenario l = Inr (ascii ''<html>No attempt</html>'')"
  by (simp add: scenario_def)

lemma scenario_no_marker: "\<not> has_submitted_marker (ascii ''<html>No attempt</html>'')"
  by (simp add: has_submitted_marker_def SUBMITTED_JP_def ascii_def)

end
